theory Spec2Isabelle
  imports Complex_Main
begin

section \<open>Errors\<close>

text \<open>
  The exceptions the modelled Python code can raise. A function that may raise returns
  \<open>error + 'a\<close>, with \<open>Inl\<close> for the exception.
\<close>

datatype error = ValueError | ZeroDivisionError | IndexError

section \<open>The input parser (lib/gui.py)\<close>

text \<open>
  A Python \<open>str\<close> is modelled as a \<open>string\<close>: every \<open>char\<close> stands for the
  code point of the same number, so the model covers the code points 0 to 255. Within
  that range the regular expression class \<open>\d\<close> is exactly the ten characters 0 to 9,
  and \<open>.\<close> is every character but the line feed (code point 10); the flag
  \<open>re.ASCII\<close> changes neither of them.
\<close>

definition ord :: "char \<Rightarrow> nat" where
  "ord c = of_char c"

definition is_bit :: "char \<Rightarrow> bool" where
  "is_bit c = (c = CHR ''0'' \<or> c = CHR ''1'')"

definition is_decimal :: "char \<Rightarrow> bool" where
  "is_decimal c = (48 \<le> ord c \<and> ord c \<le> 57)"

definition is_dot :: "char \<Rightarrow> bool" where
  "is_dot c = (ord c \<noteq> 10)"

text \<open>\<open>re.fullmatch\<close> of the three compiled patterns, as predicates on the whole input.\<close>

definition fullmatch_BINARY_PATTERN :: "string \<Rightarrow> bool" where
  "fullmatch_BINARY_PATTERN inp = (inp \<noteq> [] \<and> list_all is_bit inp)"

fun fullmatch_ASCII_PATTERN :: "string \<Rightarrow> bool" where
  "fullmatch_ASCII_PATTERN (a # u # S) =
     (a = CHR ''a'' \<and> u = CHR ''_'' \<and> S \<noteq> [] \<and> list_all is_dot S)"
| "fullmatch_ASCII_PATTERN _ = False"

fun fullmatch_DECIMAL_PATTERN :: "string \<Rightarrow> bool" where
  "fullmatch_DECIMAL_PATTERN (d # u # D) =
     (d = CHR ''d'' \<and> u = CHR ''_'' \<and> D \<noteq> [] \<and> list_all is_decimal D)"
| "fullmatch_DECIMAL_PATTERN _ = False"

text \<open>\<open>int(c)\<close> of a one-character string: its digit value, or \<open>ValueError\<close>.\<close>

definition int_py :: "char \<Rightarrow> error + nat" where
  "int_py c = (if is_decimal c then Inr (ord c - 48) else Inl ValueError)"

text \<open>
  \<open>"{:0wb}".format(n)\<close>: the binary digits of \<open>n\<close>, most significant first, padded
  with zeros on the left up to the width \<open>w\<close>; a longer number is not cut.
\<close>

fun bin_digits :: "nat \<Rightarrow> string" where
  "bin_digits n =
     (if n < 2 then [if n = 0 then CHR ''0'' else CHR ''1'']
      else bin_digits (n div 2) @ [if n mod 2 = 0 then CHR ''0'' else CHR ''1''])"

declare bin_digits.simps [simp del]

definition format_b :: "nat \<Rightarrow> nat \<Rightarrow> string" where
  "format_b w n = replicate (w - length (bin_digits n)) (CHR ''0'') @ bin_digits n"

text \<open>The two loops \<open>for i in inp[2:]: bit_string += ...\<close>, with the accumulator.\<close>

fun ascii_loop :: "string \<Rightarrow> string \<Rightarrow> string" where
  "ascii_loop bit_string [] = bit_string"
| "ascii_loop bit_string (i # rest) = ascii_loop (bit_string @ format_b 7 (ord i)) rest"

fun bcd_loop :: "string \<Rightarrow> string \<Rightarrow> error + string" where
  "bcd_loop bit_string [] = Inr bit_string"
| "bcd_loop bit_string (i # rest) =
     (case int_py i of
        Inl e \<Rightarrow> Inl e
      | Inr v \<Rightarrow> bcd_loop (bit_string @ format_b 4 v) rest)"

text \<open>
  \<open>_evaluate_input\<close>: the first pattern that matches the whole input decides; with no
  match \<open>bit_string\<close> stays \<open>None\<close> and \<open>ValueError("Invalid input.")\<close> is raised.
\<close>

definition evaluate_input :: "string \<Rightarrow> error + string" where
  "evaluate_input inp =
     (if fullmatch_BINARY_PATTERN inp then Inr inp
      else if fullmatch_ASCII_PATTERN inp then Inr (ascii_loop [] (drop 2 inp))
      else if fullmatch_DECIMAL_PATTERN inp then bcd_loop [] (drop 2 inp)
      else Inl ValueError)"

section \<open>Python and numpy operations used by the engine\<close>

text \<open>
  In the model of the engine a Python \<open>float\<close> and a numpy \<open>float64\<close> are a
  \<open>real\<close>, and the arithmetic is exact: this gives the sample that every index below
  \<open>N * steps\<close> holds up to the rounding of the last bit. What the rounding of IEEE 754
  doubles changes beyond the last bit, the number of samples that \<open>numpy.arange\<close>
  allocates and the equality of a time value with \<open>j / steps\<close>, is modelled apart, in
  the section on double precision.
  A Python list of floats and a one-dimensional numpy array are both a \<open>real list\<close>.
\<close>

definition bind_err :: "error + 'a \<Rightarrow> ('a \<Rightarrow> error + 'b) \<Rightarrow> error + 'b" where
  "bind_err m f = (case m of Inl e \<Rightarrow> Inl e | Inr x \<Rightarrow> f x)"

text \<open>
  \<open>for x in xs: body\<close> with the variables the body assigns as the state; an exception
  raised by the body ends the loop.
\<close>

fun for_loop :: "'i list \<Rightarrow> ('i \<Rightarrow> 's \<Rightarrow> error + 's) \<Rightarrow> 's \<Rightarrow> error + 's" where
  "for_loop [] body s = Inr s"
| "for_loop (x # xs) body s = bind_err (body x s) (for_loop xs body)"

text \<open>\<open>range(lo, hi)\<close>: empty when \<open>hi \<le> lo\<close>.\<close>

definition py_range :: "int \<Rightarrow> int \<Rightarrow> int list" where
  "py_range lo hi = [lo..hi - 1]"

text \<open>
  \<open>xs[i]\<close> and \<open>xs[i] = v\<close> on a list: a negative index counts from the end, an
  index outside the list raises \<open>IndexError\<close>.
\<close>

definition index_ok :: "'a list \<Rightarrow> int \<Rightarrow> bool" where
  "index_ok xs i = (- int (length xs) \<le> i \<and> i < int (length xs))"

definition index_pos :: "'a list \<Rightarrow> int \<Rightarrow> nat" where
  "index_pos xs i = nat (if i < 0 then i + int (length xs) else i)"

definition getitem :: "'a list \<Rightarrow> int \<Rightarrow> error + 'a" where
  "getitem xs i = (if index_ok xs i then Inr (xs ! index_pos xs i) else Inl IndexError)"

definition setitem :: "'a list \<Rightarrow> int \<Rightarrow> 'a \<Rightarrow> error + 'a list" where
  "setitem xs i v = (if index_ok xs i then Inr (xs[index_pos xs i := v]) else Inl IndexError)"

text \<open>
  A slice bound of a sequence of length \<open>n\<close>: a negative bound counts from the end, and
  every bound is clipped to the sequence. \<open>xs[lo:hi]\<close> is empty when the clipped upper
  bound is not above the lower one.
\<close>

definition slice_bound :: "nat \<Rightarrow> int \<Rightarrow> nat" where
  "slice_bound n i = (if i < 0 then nat (int n + i) else min (nat i) n)"

definition py_slice :: "'a list \<Rightarrow> int \<Rightarrow> int \<Rightarrow> 'a list" where
  "py_slice xs lo hi =
     (let l = slice_bound (length xs) lo; h = slice_bound (length xs) hi
      in take (h - l) (drop l xs))"

text \<open>
  \<open>xs[lo:hi] = ys\<close> on a numpy array: the values must have the length of the slice,
  or length one (then the value is broadcast); any other length raises \<open>ValueError\<close>.
\<close>

definition slice_assign :: "real list \<Rightarrow> int \<Rightarrow> int \<Rightarrow> real list \<Rightarrow> error + real list" where
  "slice_assign xs lo hi ys =
     (let l = slice_bound (length xs) lo; h = slice_bound (length xs) hi; n = h - l
      in if length ys = n then Inr (take l xs @ ys @ drop (l + n) xs)
         else if length ys = 1 then Inr (take l xs @ replicate n (hd ys) @ drop (l + n) xs)
         else Inl ValueError)"

text \<open>
  \<open>numpy.arange(0, stop, step)\<close> with a float step, in exact arithmetic:
  \<open>ceil(stop / step)\<close> elements (none when that is not positive), element \<open>i\<close>
  being \<open>i * step\<close>. numpy takes the quotient, and so the ceiling, in doubles:
  \<open>numpy_t_length\<close> below is that number of elements, and \<open>numpy_t_value\<close> the
  elements as doubles.
\<close>

definition arange :: "real \<Rightarrow> real \<Rightarrow> real list" where
  "arange stop step = map (\<lambda>i. real i * step) [0..<nat \<lceil>stop / step\<rceil>]"

text \<open>
  \<open>numpy.empty_like(t)\<close>: an array of the length of \<open>t\<close> whose content is not
  initialised; \<open>uninit\<close> stands for whatever the memory holds.
\<close>

definition empty_like :: "(nat \<Rightarrow> real) \<Rightarrow> real list \<Rightarrow> real list" where
  "empty_like uninit t = map uninit [0..<length t]"

section \<open>The waveform engine (lib/waveform.py)\<close>

text \<open>
  The variables the loop over the code assigns: \<open>phase_shift\<close>, \<open>am\<close>, \<open>fm\<close>
  and \<open>pm\<close>. The result of the engine is the tuple \<open>(t, am, fm, pm)\<close>.
\<close>

type_synonym cycle_state = "bool \<times> real list \<times> real list \<times> real list"

type_synonym waves = "real list \<times> real list \<times> real list \<times> real list"

subsection \<open>\<open>_waveforms_numpy\<close>\<close>

text \<open>The body of \<open>for idx, val in enumerate(code)\<close>.\<close>

definition numpy_cycle ::
  "int \<Rightarrow> real list \<Rightarrow> real list \<Rightarrow> nat \<times> char \<Rightarrow> cycle_state \<Rightarrow> error + cycle_state" where
  "numpy_cycle steps sin_t sin_2t = (\<lambda>(idx, val) (phase_shift, am, fm, pm).
     let idx_low = int idx * steps;
         idx_high = (int idx + 1) * steps
     in bind_err (int_py val) (\<lambda>v.
        bind_err (slice_assign am idx_low idx_high
                   (map (\<lambda>x. real (v + 1) / 2 * x) (py_slice sin_t 0 steps))) (\<lambda>am'.
        bind_err (slice_assign fm idx_low idx_high
                   (if v \<noteq> 0 then py_slice sin_2t 0 steps else py_slice sin_t 0 steps)) (\<lambda>fm'.
        let phase_shift' = (if idx > 0 then phase_shift \<noteq> (v = 0) else phase_shift);
            factor = (if phase_shift' then - 1 else 1)
        in bind_err (slice_assign pm idx_low idx_high
                      (map (\<lambda>x. factor * x) (py_slice sin_t 0 steps))) (\<lambda>pm'.
           Inr (phase_shift', am', fm', pm'))))))"

definition waveforms_numpy :: "(nat \<Rightarrow> real) \<Rightarrow> string \<Rightarrow> int \<Rightarrow> error + waves" where
  "waveforms_numpy uninit code steps =
     (if steps = 0 then Inl ZeroDivisionError
      else
        let t = arange (real (length code)) (1 / real_of_int steps);
            sin_t = map (\<lambda>x. sin (x * 2 * pi)) (py_slice t 0 steps);
            sin_2t = map (\<lambda>x. sin (2 * x * 2 * pi)) (py_slice t 0 steps);
            am = empty_like uninit t;
            fm = empty_like uninit t;
            pm = empty_like uninit t
        in bind_err (for_loop (enumerate 0 code) (numpy_cycle steps sin_t sin_2t) (False, am, fm, pm))
             (\<lambda>(phase_shift, am, fm, pm). Inr (t, am, fm, pm)))"

subsection \<open>\<open>_waveforms_native\<close>\<close>

text \<open>
  The body of \<open>for idx in range(1, len(t))\<close>, the addition being exact;
  \<open>native_t_value\<close> below is the same sum in doubles.
\<close>

definition native_t_step :: "real \<Rightarrow> int \<Rightarrow> real list \<Rightarrow> error + real list" where
  "native_t_step step_width idx t =
     bind_err (getitem t (idx - 1)) (\<lambda>prev. setitem t idx (prev + step_width))"

text \<open>The body of \<open>for idx, t_i in enumerate(t[:steps])\<close>.\<close>

definition native_sin_step ::
  "nat \<times> real \<Rightarrow> real list \<times> real list \<Rightarrow> error + real list \<times> real list" where
  "native_sin_step = (\<lambda>(idx, t_i) (sin_t, sin_2t).
     bind_err (setitem sin_t (int idx) (sin (t_i * 2 * pi))) (\<lambda>sin_t'.
     bind_err (setitem sin_2t (int idx) (sin (2 * t_i * 2 * pi))) (\<lambda>sin_2t'.
     Inr (sin_t', sin_2t'))))"

text \<open>
  The body of \<open>for i in range(idx_low, idx_high)\<close>. It is reached only with
  \<open>steps \<noteq> 0\<close>, so \<open>i % steps\<close> does not raise; Python's \<open>%\<close> on integers has
  the sign of the divisor, as \<open>mod\<close> on \<open>int\<close> has. The assignment to
  \<open>phase_shift\<close> stands inside this loop, as in the source.
\<close>

definition native_sample ::
  "int \<Rightarrow> real list \<Rightarrow> real list \<Rightarrow> nat \<Rightarrow> char \<Rightarrow> int \<Rightarrow> cycle_state \<Rightarrow> error + cycle_state" where
  "native_sample steps sin_t sin_2t idx val i = (\<lambda>(phase_shift, am, fm, pm).
     bind_err (int_py val) (\<lambda>v.
     bind_err (getitem sin_t (i mod steps)) (\<lambda>s.
     bind_err (setitem am i (real (v + 1) / 2 * s)) (\<lambda>am'.
     bind_err (if v \<noteq> 0 then getitem sin_2t (i mod steps) else getitem sin_t (i mod steps)) (\<lambda>f.
     bind_err (setitem fm i f) (\<lambda>fm'.
     let phase_shift' = (if idx > 0 then phase_shift \<noteq> (v = 0) else phase_shift);
         factor = (if phase_shift' then - 1 else 1)
     in bind_err (getitem sin_t (i mod steps)) (\<lambda>s'.
        bind_err (setitem pm i (factor * s')) (\<lambda>pm'.
        Inr (phase_shift', am', fm', pm')))))))))"

text \<open>The body of \<open>for idx, val in enumerate(code)\<close>.\<close>

definition native_cycle ::
  "int \<Rightarrow> real list \<Rightarrow> real list \<Rightarrow> nat \<times> char \<Rightarrow> cycle_state \<Rightarrow> error + cycle_state" where
  "native_cycle steps sin_t sin_2t = (\<lambda>(idx, val).
     let idx_low = int idx * steps;
         idx_high = (int idx + 1) * steps
     in for_loop (py_range idx_low idx_high) (native_sample steps sin_t sin_2t idx val))"

definition waveforms_native :: "string \<Rightarrow> int \<Rightarrow> error + waves" where
  "waveforms_native code steps =
     (let t0 = replicate (nat (steps * int (length code))) 0
      in if steps = 0 then Inl ZeroDivisionError
         else
           let step_width = 1 / real_of_int steps
           in bind_err (for_loop (py_range 1 (int (length t0))) (native_t_step step_width) t0) (\<lambda>t.
              bind_err (for_loop (enumerate 0 (py_slice t 0 steps)) native_sin_step
                         (replicate (nat steps) 0, replicate (nat steps) 0)) (\<lambda>(sin_t, sin_2t).
              bind_err (for_loop (enumerate 0 code) (native_cycle steps sin_t sin_2t)
                         (False, replicate (length t) 0, replicate (length t) 0,
                          replicate (length t) 0))
                (\<lambda>(phase_shift, am, fm, pm). Inr (t, am, fm, pm)))))"

subsection \<open>\<open>waveforms\<close>\<close>

text \<open>
  The module flag \<open>slow\<close> is set once, when numpy cannot be imported; it is a
  parameter here.
\<close>

definition waveforms :: "bool \<Rightarrow> (nat \<Rightarrow> real) \<Rightarrow> string \<Rightarrow> int \<Rightarrow> error + waves" where
  "waveforms slow uninit code steps =
     (if slow then waveforms_native code steps else waveforms_numpy uninit code steps)"

section \<open>Double precision\<close>

text \<open>
  A finite double is a rational number, and an arithmetic operation on doubles returns
  the exact result rounded to the nearest double.
\<close>

text \<open>\<open>bit_length n\<close> is the number of binary digits of \<open>n\<close>.\<close>

fun bit_length :: "nat \<Rightarrow> nat" where
  "bit_length n = (if n = 0 then 0 else Suc (bit_length (n div 2)))"

declare bit_length.simps [simp del]

text \<open>The power of two with an integer exponent.\<close>

definition pow2 :: "int \<Rightarrow> rat" where
  "pow2 e = (if 0 \<le> e then 2 ^ nat e else 1 / 2 ^ nat (- e))"

text \<open>
  For \<open>x > 0\<close>, the exponent \<open>e\<close> with \<open>2 ^ e \<le> x < 2 ^ (e + 1)\<close>
  (lemma \<open>binary_exponent_bounds\<close>).
\<close>

definition binary_exponent :: "rat \<Rightarrow> int" where
  "binary_exponent x =
     (if 1 \<le> x then int (bit_length (nat \<lfloor>x\<rfloor>)) - 1
      else - int (bit_length (nat (\<lceil>1 / x\<rceil> - 1))))"

text \<open>The nearest integer, a tie going to the even one.\<close>

definition round_half_even :: "rat \<Rightarrow> int" where
  "round_half_even x =
     (let f = \<lfloor>x\<rfloor>; r = x - of_int f
      in if r < 1 / 2 then f else if 1 / 2 < r then f + 1 else if even f then f else f + 1)"

text \<open>
  The double nearest to \<open>x\<close>: the significand has 53 binary digits, so the doubles
  around \<open>x\<close> are the multiples of \<open>2 ^ (e - 52)\<close>, and a tie goes to the even
  significand. Overflow and subnormal numbers are left out: every value below lies in the
  normal range.
\<close>

definition round_double :: "rat \<Rightarrow> rat" where
  "round_double x =
     (if x = 0 then 0
      else let q = pow2 (binary_exponent \<bar>x\<bar> - 52)
           in sgn x * of_int (round_half_even (\<bar>x\<bar> / q)) * q)"

text \<open>
  Python's \<open>a / b\<close> on two integers, \<open>b\<close> not zero: the double nearest to the
  quotient.
\<close>

definition py_truediv :: "int \<Rightarrow> int \<Rightarrow> rat" where
  "py_truediv a b = round_double (of_int a / of_int b)"

text \<open>
  \<open>len(t)\<close> after \<open>t = numpy.arange(0, len(code), 1 / steps)\<close> (line 46):
  numpy allocates \<open>ceil((stop - start) / step)\<close> elements, the quotient being the
  division of the double \<open>len(code)\<close> by the double \<open>1 / steps\<close>. The arrays
  \<open>am\<close>, \<open>fm\<close> and \<open>pm\<close> are \<open>numpy.empty_like(t)\<close> and have the same
  length.
\<close>

definition numpy_t_length :: "string \<Rightarrow> int \<Rightarrow> nat" where
  "numpy_t_length code steps =
     nat \<lceil>round_double (of_nat (length code) / py_truediv 1 steps)\<rceil>"

text \<open>
  \<open>t[j]\<close> of the vectorized backend: numpy fills the array with
  \<open>start + j * delta\<close>, where \<open>start\<close> is 0 and \<open>delta\<close> is the step.
\<close>

definition numpy_t_value :: "int \<Rightarrow> nat \<Rightarrow> rat" where
  "numpy_t_value steps j = round_double (of_nat j * py_truediv 1 steps)"

text \<open>
  \<open>t[idx]\<close> of the scalar backend: \<open>t[0]\<close> is \<open>0.0\<close> and
  \<open>t[idx] = t[idx - 1] + step_width\<close> (lines 87 to 90).
\<close>

fun native_t_value :: "int \<Rightarrow> nat \<Rightarrow> rat" where
  "native_t_value steps 0 = 0"
| "native_t_value steps (Suc idx) = round_double (native_t_value steps idx + py_truediv 1 steps)"

section \<open>The specification's vocabulary\<close>

text \<open>
  The encoding of one decimal digit in the words of the specification: four bits, the
  most significant first, bit \<open>k\<close> of the group being binary digit \<open>3 - k\<close> of the
  digit's value.
\<close>

definition spec_bcd_digit :: "char \<Rightarrow> string" where
  "spec_bcd_digit c =
     map (\<lambda>k. if odd ((ord c - 48) div 2 ^ (3 - k)) then CHR ''1'' else CHR ''0'') [0..<4]"

text \<open>
  The phase of cycle \<open>i\<close> in the words of the specification: false in cycle 0, and in
  every later cycle the phase of the cycle before, flipped when the bit of the cycle is 0.
\<close>

fun spec_phase :: "string \<Rightarrow> nat \<Rightarrow> bool" where
  "spec_phase code 0 = False"
| "spec_phase code (Suc i) = (spec_phase code i \<noteq> (code ! Suc i = CHR ''0''))"


section \<open>The phase of the scalar backend\<close>

text \<open>
  In \<open>_waveforms_native\<close> the assignment to \<open>phase_shift\<close> stands in the loop over
  the samples, so it is executed once for every sample of a cycle \<open>idx > 0\<close>.
  \<open>native_phase code S n\<close> is the value of \<open>phase_shift\<close> with which sample \<open>n\<close>
  (counted over the whole array, \<open>S\<close> samples a cycle) of \<open>pm\<close> is written.
\<close>

fun native_phase :: "string \<Rightarrow> nat \<Rightarrow> nat \<Rightarrow> bool" where
  "native_phase code S 0 = False"
| "native_phase code S (Suc n) =
     (if Suc n div S > 0 then native_phase code S n \<noteq> (code ! (Suc n div S) = CHR ''0'')
      else native_phase code S n)"

section \<open>Properties of the parser\<close>

lemma bcd_loop_digits:
  "list_all is_decimal D \<Longrightarrow>
   bcd_loop acc D = Inr (acc @ concat (map (\<lambda>c. format_b 4 (ord c - 48)) D))"
  by (induction D arbitrary: acc) (simp_all add: int_py_def)

lemma bin_digits_0: "bin_digits 0 = ''0''"
  by (simp add: bin_digits.simps)

lemma bin_digits_1: "bin_digits (Suc 0) = ''1''"
  by (simp add: bin_digits.simps)

lemma bin_digits_Bit0: "bin_digits (numeral (Num.Bit0 k)) = bin_digits (numeral k) @ ''0''"
proof -
  have "\<not> numeral (Num.Bit0 k) < (2::nat)" by simp
  then show ?thesis
    by (subst bin_digits.simps) simp
qed

lemma bin_digits_Bit1: "bin_digits (numeral (Num.Bit1 k)) = bin_digits (numeral k) @ ''1''"
proof -
  have "\<not> numeral (Num.Bit1 k) < (2::nat)" by simp
  then show ?thesis
    by (subst bin_digits.simps) simp
qed

lemma replicate_numeral: "replicate (numeral k) x = x # replicate (pred_numeral k) x"
  by (simp add: numeral_eq_Suc)

lemmas bin_digits_eval = bin_digits_0 bin_digits_1 bin_digits_Bit0 bin_digits_Bit1 replicate_numeral

lemma format_b_4_digit:
  assumes "n < 10"
  shows "format_b 4 n = map (\<lambda>k. if odd (n div 2 ^ (3 - k)) then CHR ''1'' else CHR ''0'') [0..<4]"
proof -
  from assms have "n \<in> {0,1,2,3,4,5,6,7,8,9}" by auto
  then show ?thesis
    by (elim insertE emptyE) (simp_all add: format_b_def bin_digits_eval upt_rec)
qed

lemma format_b_spec_bcd_digit:
  "is_decimal c \<Longrightarrow> format_b 4 (ord c - 48) = spec_bcd_digit c"
  unfolding spec_bcd_digit_def is_decimal_def
  by (rule format_b_4_digit) auto

lemma set_digits_is_decimal:
  "set D \<subseteq> set ''0123456789'' \<Longrightarrow> list_all is_decimal D"
  by (auto simp: list_all_iff is_decimal_def ord_def)

lemma not_bit_d: "\<not> fullmatch_BINARY_PATTERN (CHR ''d'' # s)"
  by (simp add: fullmatch_BINARY_PATTERN_def is_bit_def)

text \<open>
  Claim C8. For every input \<open>d_\<close> followed by one or more decimal digits,
  \<open>_evaluate_input\<close> returns, in the order of the input, the four bits of each digit
  on its own, most significant bit first and padded with zeros; so \<open>d_9\<close> gives
  \<open>1001\<close> and \<open>d_12\<close> gives \<open>00010010\<close>.
\<close>

theorem evaluate_input_bcd:
  assumes "D \<noteq> []" and "set D \<subseteq> set ''0123456789''"
  shows "evaluate_input (''d_'' @ D) = Inr (concat (map spec_bcd_digit D))"
proof -
  have dec: "list_all is_decimal D" using assms(2) by (rule set_digits_is_decimal)
  have m: "fullmatch_DECIMAL_PATTERN (''d_'' @ D)" using assms(1) dec by simp
  have "evaluate_input (''d_'' @ D) = bcd_loop [] D"
    using m by (simp add: evaluate_input_def not_bit_d)
  also have "\<dots> = Inr (concat (map (\<lambda>c. format_b 4 (ord c - 48)) D))"
    using dec by (simp add: bcd_loop_digits)
  also have "map (\<lambda>c. format_b 4 (ord c - 48)) D = map spec_bcd_digit D"
    using dec by (simp add: list_all_iff format_b_spec_bcd_digit)
  finally show ?thesis .
qed

theorem evaluate_input_bcd_witness:
  "evaluate_input ''d_9'' = Inr ''1001'' \<and> evaluate_input ''d_12'' = Inr ''00010010''"
  using evaluate_input_bcd [of "''9''"] evaluate_input_bcd [of "''12''"]
  by (simp add: spec_bcd_digit_def ord_def upt_rec)

text \<open>
  Claim C9. For every non-empty input made of the characters 0 and 1 only,
  \<open>_evaluate_input\<close> returns the input itself, character by character.
\<close>

theorem evaluate_input_binary:
  assumes "s \<noteq> []" and "set s \<subseteq> {CHR ''0'', CHR ''1''}"
  shows "evaluate_input s = Inr s"
proof -
  have "list_all is_bit s" using assms(2) by (auto simp: list_all_iff is_bit_def)
  with assms(1) show ?thesis by (simp add: evaluate_input_def fullmatch_BINARY_PATTERN_def)
qed

theorem evaluate_input_binary_witness:
  "evaluate_input ''0110'' = Inr ''0110''"
  using evaluate_input_binary [of "''0110''"] by simp

text \<open>
  Claim C4. The input \<open>a_\<close> followed by the character of code point 233 is not
  refused: the pattern \<open>a_.+\<close> matches it, and the character is written with its
  eight binary digits, one more than the seven of the format.
\<close>

theorem evaluate_input_non_ascii:
  "evaluate_input [CHR ''a'', CHR ''_'', CHR 0xE9] = Inr ''11101001''"
  by (simp add: evaluate_input_def fullmatch_BINARY_PATTERN_def is_bit_def is_dot_def ord_def
      format_b_def bin_digits_eval)

section \<open>Loops, indices and slices\<close>

lemma bind_err_Inr [simp]: "bind_err (Inr x) f = f x"
  by (simp add: bind_err_def)

lemma bind_err_Inl [simp]: "bind_err (Inl e) f = Inl e"
  by (simp add: bind_err_def)

lemma for_loop_append:
  "for_loop (xs @ ys) body s = bind_err (for_loop xs body s) (for_loop ys body)"
proof (induction xs arbitrary: s)
  case Nil
  show ?case by simp
next
  case (Cons x xs)
  show ?case
  proof (cases "body x s")
    case (Inl e)
    then show ?thesis by simp
  next
    case (Inr s')
    then show ?thesis by (simp add: Cons.IH)
  qed
qed

lemma for_loop_invariant_aux:
  assumes step: "\<And>pre x post s. xs = pre @ x # post \<Longrightarrow> P (length pre) s \<Longrightarrow>
                  \<exists>s'. body x s = Inr s' \<and> P (Suc (length pre)) s'"
  shows "xs = pre @ rest \<Longrightarrow> P (length pre) s \<Longrightarrow>
         \<exists>s'. for_loop rest body s = Inr s' \<and> P (length xs) s'"
proof (induction rest arbitrary: pre s)
  case Nil
  then show ?case by simp
next
  case (Cons x rest)
  from step [OF Cons.prems(1) Cons.prems(2)]
  obtain s1 where s1: "body x s = Inr s1" "P (Suc (length pre)) s1" by blast
  have "xs = (pre @ [x]) @ rest" using Cons.prems(1) by simp
  moreover have "P (length (pre @ [x])) s1" using s1(2) by simp
  ultimately obtain s' where "for_loop rest body s1 = Inr s'" "P (length xs) s'"
    using Cons.IH by blast
  then show ?case using s1(1) by simp
qed

lemma for_loop_invariant:
  assumes "P 0 s"
    and "\<And>pre x post s. xs = pre @ x # post \<Longrightarrow> P (length pre) s \<Longrightarrow>
           \<exists>s'. body x s = Inr s' \<and> P (Suc (length pre)) s'"
  shows "\<exists>s'. for_loop xs body s = Inr s' \<and> P (length xs) s'"
  using for_loop_invariant_aux [where P = P and pre = "[]" and xs = xs and body = body and s = s]
    assms by simp

lemma enumerate_split:
  assumes "enumerate 0 xs = pre @ (i, v) # post"
  shows "i = length pre \<and> i < length xs \<and> v = xs ! i"
proof -
  have len: "length pre < length xs"
    using arg_cong [OF assms, of length] by simp
  have "enumerate 0 xs ! length pre = (i, v)" using assms by simp
  then show ?thesis using len by (auto simp: nth_enumerate_eq)
qed

lemma py_range_split:
  assumes "py_range lo hi = pre @ i # post"
  shows "i = lo + int (length pre) \<and> i < hi"
proof -
  have len: "length pre < length (py_range lo hi)" using assms by simp
  then have lt: "lo + int (length pre) \<le> hi - 1" by (simp add: py_range_def)
  have "py_range lo hi ! length pre = i" using assms by simp
  then show ?thesis using lt by (simp add: py_range_def)
qed

lemma length_py_range: "length (py_range lo hi) = nat (hi - lo)"
  by (simp add: py_range_def)

lemma getitem_nat: "i < length xs \<Longrightarrow> getitem xs (int i) = Inr (xs ! i)"
  by (simp add: getitem_def index_ok_def index_pos_def)

lemma setitem_nat: "i < length xs \<Longrightarrow> setitem xs (int i) v = Inr (xs[i := v])"
  by (simp add: setitem_def index_ok_def index_pos_def)

lemma py_slice_prefix: "0 \<le> n \<Longrightarrow> py_slice xs 0 n = take (nat n) xs"
  by (simp add: py_slice_def slice_bound_def min_def)

lemma slice_assign_block:
  assumes "(Suc i) * S \<le> length xs" and "length ys = S"
  shows "slice_assign xs (int i * int S) ((int i + 1) * int S) ys
         = Inr (take (i * S) xs @ ys @ drop (Suc i * S) xs)"
proof -
  have "int i * int S = int (i * S)" by simp
  then have l: "slice_bound (length xs) (int i * int S) = i * S"
    using assms(1) by (simp add: slice_bound_def del: of_nat_mult of_nat_add)
  have "(int i + 1) * int S = int (Suc i * S)" by (simp add: algebra_simps)
  then have h: "slice_bound (length xs) ((int i + 1) * int S) = Suc i * S"
    using assms(1) by (simp add: slice_bound_def del: of_nat_mult of_nat_add)
  show ?thesis
    unfolding slice_assign_def l h using assms(2) by (simp add: Let_def add.commute)
qed


lemma nth_block:
  assumes "Suc i * S \<le> length xs" and "length ys = S" and "j < length xs"
  shows "(take (i * S) xs @ ys @ drop (Suc i * S) xs) ! j
         = (if i * S \<le> j \<and> j < Suc i * S then ys ! (j - i * S) else xs ! j)"
proof -
  have iS: "i * S \<le> length xs" using assms(1) by simp
  consider "j < i * S" | "i * S \<le> j" "j < Suc i * S" | "Suc i * S \<le> j" by linarith
  then show ?thesis
  proof cases
    case 1
    then show ?thesis using iS by (simp add: nth_append min_def)
  next
    case 2
    then have "j - i * S < S" by (simp add: less_diff_conv2 add.commute)
    then show ?thesis using 2 iS assms(2) by (simp add: nth_append min_def)
  next
    case 3
    then have "Suc i * S + (j - i * S - S) = j" by simp
    moreover have "\<not> j - i * S < S" using 3 by (simp add: not_less le_diff_conv add.commute)
    ultimately show ?thesis using 3 iS assms by (simp add: nth_append min_def)
  qed
qed

lemma length_block:
  assumes "Suc i * S \<le> length xs" and "length ys = S"
  shows "length (take (i * S) xs @ ys @ drop (Suc i * S) xs) = length xs"
  using assms by simp

lemma block_div_mod:
  assumes "i * S \<le> j" and "j < Suc i * S"
  shows "j div S = i \<and> j mod S = j - i * S"
proof -
  have S: "0 < S" using assms by (cases S) auto
  have "j = i * S + (j - i * S)" using assms(1) by simp
  moreover have "j - i * S < S" using assms by simp
  ultimately have "j div S = i" "j mod S = j - i * S"
    using S by (metis div_mult_self3 div_less add.right_neutral less_numeral_extra(3),
                metis mod_mult_self3 mod_less)
  then show ?thesis by simp
qed

lemma int_py_bit: "is_bit val \<Longrightarrow> int_py val = Inr (if val = CHR ''1'' then 1 else 0)"
  by (auto simp: is_bit_def int_py_def is_decimal_def ord_def)

section \<open>The loop of the vectorized backend\<close>

lemma numpy_cycle_bit:
  assumes "Suc idx * S \<le> L" and "length am = L" and "length fm = L" and "length pm = L"
    and "length sin_t = S" and "length sin_2t = S" and "is_bit val"
  shows "numpy_cycle (int S) sin_t sin_2t (idx, val) (ph, am, fm, pm) =
     Inr (if idx > 0 then ph \<noteq> (val = CHR ''0'') else ph,
          take (idx * S) am @ map (\<lambda>x. (if val = CHR ''1'' then 1 else 1 / 2) * x) sin_t
            @ drop (Suc idx * S) am,
          take (idx * S) fm @ (if val = CHR ''1'' then sin_2t else sin_t) @ drop (Suc idx * S) fm,
          take (idx * S) pm
            @ map (\<lambda>x. (if (if idx > 0 then ph \<noteq> (val = CHR ''0'') else ph) then - 1 else 1) * x) sin_t
            @ drop (Suc idx * S) pm)"
proof -
  have sl: "py_slice sin_t 0 (int S) = sin_t" "py_slice sin_2t 0 (int S) = sin_2t"
    using assms(5,6) by (simp_all add: py_slice_prefix)
  have v: "val = CHR ''0'' \<or> val = CHR ''1''" using assms(7) by (simp add: is_bit_def)
  have blk: "\<And>xs ys. length xs = L \<Longrightarrow> length ys = S \<Longrightarrow>
      slice_assign xs (int idx * int S) ((int idx + 1) * int S) ys
        = Inr (take (idx * S) xs @ ys @ drop (Suc idx * S) xs)"
    using assms(1) by (simp add: slice_assign_block)
  show ?thesis
    unfolding numpy_cycle_def using v assms(2-6)
    by (auto simp: int_py_bit [OF assms(7)] sl blk Let_def)
qed


lemma numpy_loop:
  fixes code :: string and S :: nat
  defines "L \<equiv> length code * S"
  assumes bits: "list_all is_bit code"
    and len0: "length am0 = L" "length fm0 = L" "length pm0 = L"
    and lens: "length sin_t = S" "length sin_2t = S"
  shows "\<exists>ph am fm pm.
           for_loop (enumerate 0 code) (numpy_cycle (int S) sin_t sin_2t) (False, am0, fm0, pm0)
             = Inr (ph, am, fm, pm)
         \<and> length am = L \<and> length fm = L \<and> length pm = L
         \<and> (\<forall>j<L. am ! j = (if code ! (j div S) = CHR ''1'' then 1 else 1 / 2) * sin_t ! (j mod S)
                  \<and> fm ! j = (if code ! (j div S) = CHR ''1'' then sin_2t else sin_t) ! (j mod S)
                  \<and> pm ! j = (if spec_phase code (j div S) then - 1 else 1) * sin_t ! (j mod S))"
proof -
  define P :: "nat \<Rightarrow> cycle_state \<Rightarrow> bool" where
    "P p s = (case s of (ph, am, fm, pm) \<Rightarrow>
        length am = L \<and> length fm = L \<and> length pm = L
      \<and> ph = (case p of 0 \<Rightarrow> False | Suc i \<Rightarrow> spec_phase code i)
      \<and> (\<forall>j<p * S. am ! j = (if code ! (j div S) = CHR ''1'' then 1 else 1 / 2) * sin_t ! (j mod S)
                  \<and> fm ! j = (if code ! (j div S) = CHR ''1'' then sin_2t else sin_t) ! (j mod S)
                  \<and> pm ! j = (if spec_phase code (j div S) then - 1 else 1) * sin_t ! (j mod S)))"
    for p s
  have init: "P 0 (False, am0, fm0, pm0)"
    using len0 by (simp add: P_def)
  have step: "\<exists>s'. numpy_cycle (int S) sin_t sin_2t x s = Inr s' \<and> P (Suc (length pre)) s'"
    if split: "enumerate 0 code = pre @ x # post" and inv: "P (length pre) s"
    for pre x post s
  proof -
    obtain idx val where x: "x = (idx, val)" by (cases x)
    obtain ph am fm pm where s: "s = (ph, am, fm, pm)" by (cases s)
    from enumerate_split [OF split [unfolded x]]
    have idx: "idx = length pre" "idx < length code" "val = code ! idx" by simp_all
    have bit: "is_bit val" using bits idx by (simp add: list_all_length)
    have blk: "Suc idx * S \<le> L"
      unfolding L_def using idx(2) by (simp add: Suc_leI mult_le_mono1 del: mult_Suc)
    from inv have la: "length am = L" and lf: "length fm = L" and lp: "length pm = L"
      and ph: "ph = (case idx of 0 \<Rightarrow> False | Suc i \<Rightarrow> spec_phase code i)"
      and old: "\<And>j. j < idx * S \<Longrightarrow>
           am ! j = (if code ! (j div S) = CHR ''1'' then 1 else 1 / 2) * sin_t ! (j mod S)
         \<and> fm ! j = (if code ! (j div S) = CHR ''1'' then sin_2t else sin_t) ! (j mod S)
         \<and> pm ! j = (if spec_phase code (j div S) then - 1 else 1) * sin_t ! (j mod S)"
      unfolding P_def s idx(1) by simp_all
    define ph' where "ph' = (if idx > 0 then ph \<noteq> (val = CHR ''0'') else ph)"
    have ph': "ph' = spec_phase code idx"
      unfolding ph'_def ph idx(3) by (cases idx) simp_all
    define am' where "am' = take (idx * S) am
      @ map (\<lambda>x. (if val = CHR ''1'' then 1 else 1 / 2) * x) sin_t @ drop (Suc idx * S) am"
    define fm' where "fm' = take (idx * S) fm
      @ (if val = CHR ''1'' then sin_2t else sin_t) @ drop (Suc idx * S) fm"
    define pm' where "pm' = take (idx * S) pm
      @ map (\<lambda>x. (if ph' then - 1 else 1) * x) sin_t @ drop (Suc idx * S) pm"
    have run: "numpy_cycle (int S) sin_t sin_2t x s = Inr (ph', am', fm', pm')"
      unfolding x s ph'_def am'_def fm'_def pm'_def
      by (rule numpy_cycle_bit [OF blk la lf lp lens bit])
    have lens': "length am' = L" "length fm' = L" "length pm' = L"
      unfolding am'_def fm'_def pm'_def using blk la lf lp lens by auto
    have nth_am: "am' ! j = (if idx * S \<le> j \<and> j < Suc idx * S
        then map (\<lambda>x. (if val = CHR ''1'' then 1 else 1 / 2) * x) sin_t ! (j - idx * S) else am ! j)"
      if "j < L" for j
      unfolding am'_def by (rule nth_block) (use blk la lens that in simp_all)
    have nth_fm: "fm' ! j = (if idx * S \<le> j \<and> j < Suc idx * S
        then (if val = CHR ''1'' then sin_2t else sin_t) ! (j - idx * S) else fm ! j)"
      if "j < L" for j
      unfolding fm'_def by (rule nth_block) (use blk lf lens that in simp_all)
    have nth_pm: "pm' ! j = (if idx * S \<le> j \<and> j < Suc idx * S
        then map (\<lambda>x. (if ph' then - 1 else 1) * x) sin_t ! (j - idx * S) else pm ! j)"
      if "j < L" for j
      unfolding pm'_def by (rule nth_block) (use blk lp lens that in simp_all)
    have vals: "am' ! j = (if code ! (j div S) = CHR ''1'' then 1 else 1 / 2) * sin_t ! (j mod S)
         \<and> fm' ! j = (if code ! (j div S) = CHR ''1'' then sin_2t else sin_t) ! (j mod S)
         \<and> pm' ! j = (if spec_phase code (j div S) then - 1 else 1) * sin_t ! (j mod S)"
      if j: "j < Suc idx * S" for j
    proof (cases "j < idx * S")
      case True
      have jL: "j < L" using j blk by simp
      have "am' ! j = am ! j" "fm' ! j = fm ! j" "pm' ! j = pm ! j"
        using True by (simp_all add: nth_am [OF jL] nth_fm [OF jL] nth_pm [OF jL])
      then show ?thesis using old [OF True] by simp
    next
      case False
      then have lo: "idx * S \<le> j" by simp
      have jL: "j < L" using j blk by simp
      from block_div_mod [OF lo j] have dm: "j div S = idx" "j mod S = j - idx * S" by simp_all
      have "0 < S" using j by (cases S) simp_all
      then have k: "j - idx * S < S" using dm(2) by (metis mod_less_divisor)
      have "am' ! j = (if val = CHR ''1'' then 1 else 1 / 2) * sin_t ! (j - idx * S)"
        using lo j k lens by (simp add: nth_am [OF jL] del: mult_Suc)
      moreover have "fm' ! j = (if val = CHR ''1'' then sin_2t else sin_t) ! (j - idx * S)"
        using lo j k lens by (simp add: nth_fm [OF jL] del: mult_Suc)
      moreover have "pm' ! j = (if ph' then - 1 else 1) * sin_t ! (j - idx * S)"
        using lo j k lens by (simp add: nth_pm [OF jL] del: mult_Suc)
      ultimately show ?thesis unfolding dm ph' idx(3) by simp
    qed
    have "P (Suc (length pre)) (ph', am', fm', pm')"
      unfolding P_def using lens' ph' vals idx(1) by simp
    with run show ?thesis by blast
  qed
  have "\<exists>s'. for_loop (enumerate 0 code) (numpy_cycle (int S) sin_t sin_2t)
      (False, am0, fm0, pm0) = Inr s' \<and> P (length (enumerate 0 code)) s'"
    by (rule for_loop_invariant [where P = P], rule init, rule step)
  then obtain s' where res: "for_loop (enumerate 0 code) (numpy_cycle (int S) sin_t sin_2t)
      (False, am0, fm0, pm0) = Inr s'" and fin: "P (length (enumerate 0 code)) s'"
    by blast
  obtain ph am fm pm where s': "s' = (ph, am, fm, pm)" by (cases s')
  from fin show ?thesis
    unfolding res s' P_def L_def by simp
qed

section \<open>The result of the vectorized backend\<close>

lemma arange_steps:
  assumes "0 < S"
  shows "arange (real N) (1 / real_of_int (int S)) = map (\<lambda>i. real i / real S) [0..<N * S]"
proof -
  have "real N * real S = of_int (int (N * S))" by simp
  then have "\<lceil>real N * real S\<rceil> = int (N * S)" by (simp only: ceiling_of_int)
  then have "nat \<lceil>real N * real S\<rceil> = N * S" by (simp only: nat_int)
  then show ?thesis by (simp add: arange_def)
qed

lemma empty_like_length: "length (empty_like u t) = length t"
  by (simp add: empty_like_def)

lemma waveforms_numpy_result:
  fixes code :: string and steps :: int
  defines "S \<equiv> nat steps"
  defines "L \<equiv> length code * S"
  assumes steps: "1 \<le> steps" and bits: "list_all is_bit code"
  shows "\<exists>t am fm pm.
           waveforms_numpy u code steps = Inr (t, am, fm, pm)
         \<and> length t = L \<and> length am = L \<and> length fm = L \<and> length pm = L
         \<and> (\<forall>j<L. t ! j = real j / real_of_int steps
                \<and> am ! j = (if code ! (j div S) = CHR ''1'' then 1 else 1 / 2)
                            * sin (2 * pi * real (j mod S) / real_of_int steps)
                \<and> fm ! j = (if code ! (j div S) = CHR ''1''
                             then sin (2 * pi * 2 * real (j mod S) / real_of_int steps)
                             else sin (2 * pi * real (j mod S) / real_of_int steps))
                \<and> pm ! j = (if spec_phase code (j div S) then - 1 else 1)
                            * sin (2 * pi * real (j mod S) / real_of_int steps))"
proof -
  have S: "0 < S" "steps = int S" using steps by (simp_all add: S_def)
  define t where "t = arange (real (length code)) (1 / real_of_int steps)"
  have t: "t = map (\<lambda>i. real i / real S) [0..<L]"
    unfolding t_def S(2) L_def by (rule arange_steps [OF S(1)])
  have lt: "length t = L" by (simp add: t)
  define sin_t where "sin_t = map (\<lambda>x. sin (x * 2 * pi)) (py_slice t 0 steps)"
  define sin_2t where "sin_2t = map (\<lambda>x. sin (2 * x * 2 * pi)) (py_slice t 0 steps)"
  have unfold: "waveforms_numpy u code steps =
      bind_err (for_loop (enumerate 0 code) (numpy_cycle (int S) sin_t sin_2t)
                  (False, empty_like u t, empty_like u t, empty_like u t))
        (\<lambda>(phase_shift, am, fm, pm). Inr (t, am, fm, pm))"
    using S by (simp add: waveforms_numpy_def Let_def t_def sin_t_def sin_2t_def)
  show ?thesis
  proof (cases "code = []")
    case True
    then have "L = 0" by (simp add: L_def)
    then show ?thesis unfolding unfold using True lt by (simp add: empty_like_def)
  next
    case False
    then have "0 < length code" by simp
    then have SL: "S \<le> L" by (simp add: L_def Suc_leI)
    have slice: "py_slice t 0 steps = map (\<lambda>i. real i / real S) [0..<S]"
      using SL S by (simp add: py_slice_prefix t take_map min_def)
    have lens: "length sin_t = S" "length sin_2t = S"
      by (simp_all add: sin_t_def sin_2t_def slice)
    have nth_sin: "sin_t ! k = sin (2 * pi * real k / real S)"
      "sin_2t ! k = sin (2 * pi * 2 * real k / real S)" if "k < S" for k
      using that by (simp_all add: sin_t_def sin_2t_def slice algebra_simps)
    from numpy_loop [OF bits, of "empty_like u t" S "empty_like u t" "empty_like u t" sin_t sin_2t]
    obtain ph am fm pm where
      run: "for_loop (enumerate 0 code) (numpy_cycle (int S) sin_t sin_2t)
             (False, empty_like u t, empty_like u t, empty_like u t) = Inr (ph, am, fm, pm)"
      and len: "length am = L" "length fm = L" "length pm = L"
      and vals: "\<And>j. j < L \<Longrightarrow>
           am ! j = (if code ! (j div S) = CHR ''1'' then 1 else 1 / 2) * sin_t ! (j mod S)
         \<and> fm ! j = (if code ! (j div S) = CHR ''1'' then sin_2t else sin_t) ! (j mod S)
         \<and> pm ! j = (if spec_phase code (j div S) then - 1 else 1) * sin_t ! (j mod S)"
      unfolding L_def [symmetric] using lens lt by (auto simp: empty_like_length)
    have res: "waveforms_numpy u code steps = Inr (t, am, fm, pm)"
      by (simp add: unfold run)
    have "t ! j = real j / real_of_int steps
        \<and> am ! j = (if code ! (j div S) = CHR ''1'' then 1 else 1 / 2)
                    * sin (2 * pi * real (j mod S) / real_of_int steps)
        \<and> fm ! j = (if code ! (j div S) = CHR ''1''
                     then sin (2 * pi * 2 * real (j mod S) / real_of_int steps)
                     else sin (2 * pi * real (j mod S) / real_of_int steps))
        \<and> pm ! j = (if spec_phase code (j div S) then - 1 else 1)
                    * sin (2 * pi * real (j mod S) / real_of_int steps)"
      if j: "j < L" for j
    proof -
      have k: "j mod S < S" using S(1) by simp
      have "t ! j = real j / real S" using j by (simp add: t)
      then show ?thesis
        using vals [OF j] nth_sin [OF k] by (simp add: S(2))
    qed
    with res lt len show ?thesis by blast
  qed
qed

section \<open>The time axis and the base curves of the scalar backend\<close>

lemma native_t_loop:
  "\<exists>t. for_loop (py_range 1 (int L)) (native_t_step w) (replicate L 0) = Inr t
       \<and> length t = L \<and> (\<forall>j<L. t ! j = real j * w)"
proof -
  define P :: "nat \<Rightarrow> real list \<Rightarrow> bool" where
    "P p t = (length t = L \<and> (\<forall>j<L. j \<le> p \<longrightarrow> t ! j = real j * w))" for p t
  have init: "P 0 (replicate L 0)" by (simp add: P_def)
  have step: "\<exists>t'. native_t_step w i t = Inr t' \<and> P (Suc (length pre)) t'"
    if split: "py_range 1 (int L) = pre @ i # post" and inv: "P (length pre) t"
    for pre i post t
  proof -
    define p where "p = length pre"
    from py_range_split [OF split] have i: "i = int (Suc p)" "Suc p < L"
      by (simp_all add: p_def)
    from inv have len: "length t = L" and old: "\<And>j. j < L \<Longrightarrow> j \<le> p \<Longrightarrow> t ! j = real j * w"
      by (simp_all add: P_def p_def)
    have "i - 1 = int p" using i(1) by simp
    then have get: "getitem t (i - 1) = Inr (t ! p)"
      using i(2) len by (simp add: getitem_nat)
    have set: "setitem t i (t ! p + w) = Inr (t[Suc p := t ! p + w])"
      unfolding i(1) using i(2) len by (simp only: setitem_nat)
    have run: "native_t_step w i t = Inr (t[Suc p := t ! p + w])"
      by (simp add: native_t_step_def get set)
    have "t ! p = real p * w" using old [of p] i(2) by simp
    then have "(t[Suc p := t ! p + w]) ! j = real j * w" if "j < L" "j \<le> Suc p" for j
      using that old [of j] len by (cases "j = Suc p") (simp_all add: algebra_simps)
    then have "P (Suc p) (t[Suc p := t ! p + w])" using len by (simp add: P_def)
    with run show ?thesis unfolding p_def by blast
  qed
  have "\<exists>t. for_loop (py_range 1 (int L)) (native_t_step w) (replicate L 0) = Inr t
          \<and> P (length (py_range 1 (int L))) t"
    by (rule for_loop_invariant [where P = P], rule init, rule step)
  then obtain t where run: "for_loop (py_range 1 (int L)) (native_t_step w) (replicate L 0) = Inr t"
    and fin: "P (L - 1) t"
    by (auto simp: length_py_range nat_diff_distrib')
  have "length t = L \<and> (\<forall>j<L. t ! j = real j * w)"
    using fin by (auto simp: P_def)
  with run show ?thesis by blast
qed

lemma native_sin_loop:
  assumes "length xs \<le> S"
  shows "\<exists>sin_t sin_2t.
           for_loop (enumerate 0 xs) native_sin_step (replicate S 0, replicate S 0)
             = Inr (sin_t, sin_2t)
         \<and> length sin_t = S \<and> length sin_2t = S
         \<and> (\<forall>k<length xs. sin_t ! k = sin (xs ! k * 2 * pi)
                          \<and> sin_2t ! k = sin (2 * xs ! k * 2 * pi))"
proof -
  define P :: "nat \<Rightarrow> real list \<times> real list \<Rightarrow> bool" where
    "P p s = (case s of (sin_t, sin_2t) \<Rightarrow>
        length sin_t = S \<and> length sin_2t = S
      \<and> (\<forall>k<p. sin_t ! k = sin (xs ! k * 2 * pi) \<and> sin_2t ! k = sin (2 * xs ! k * 2 * pi)))"
    for p s
  have init: "P 0 (replicate S 0, replicate S 0)" by (simp add: P_def)
  have step: "\<exists>s'. native_sin_step x s = Inr s' \<and> P (Suc (length pre)) s'"
    if split: "enumerate 0 xs = pre @ x # post" and inv: "P (length pre) s"
    for pre x post s
  proof -
    obtain idx t_i where x: "x = (idx, t_i)" by (cases x)
    obtain sin_t sin_2t where s: "s = (sin_t, sin_2t)" by (cases s)
    from enumerate_split [OF split [unfolded x]]
    have idx: "idx = length pre" "idx < length xs" "t_i = xs ! idx" by simp_all
    from inv have len: "length sin_t = S" "length sin_2t = S"
      and old: "\<And>k. k < idx \<Longrightarrow> sin_t ! k = sin (xs ! k * 2 * pi)
                               \<and> sin_2t ! k = sin (2 * xs ! k * 2 * pi)"
      by (simp_all add: P_def s idx(1))
    have iS: "idx < S" using idx(2) assms by simp
    have run: "native_sin_step x s
        = Inr (sin_t[idx := sin (t_i * 2 * pi)], sin_2t[idx := sin (2 * t_i * 2 * pi)])"
      using iS len by (simp add: native_sin_step_def x s setitem_nat)
    have "P (Suc idx) (sin_t[idx := sin (t_i * 2 * pi)], sin_2t[idx := sin (2 * t_i * 2 * pi)])"
      unfolding P_def using len iS old idx(3)
      by (auto simp: nth_list_update less_Suc_eq)
    with run show ?thesis unfolding idx(1) by blast
  qed
  have "\<exists>s'. for_loop (enumerate 0 xs) native_sin_step (replicate S 0, replicate S 0) = Inr s'
          \<and> P (length (enumerate 0 xs)) s'"
    by (rule for_loop_invariant [where P = P], rule init, rule step)
  then obtain s' where run: "for_loop (enumerate 0 xs) native_sin_step
      (replicate S 0, replicate S 0) = Inr s'" and fin: "P (length xs) s'"
    by auto
  obtain sin_t sin_2t where s': "s' = (sin_t, sin_2t)" by (cases s')
  from fin show ?thesis unfolding run s' P_def by simp
qed

section \<open>The loops of the scalar backend\<close>

lemma native_sample_bit:
  assumes "n < L" and "length am = L" and "length fm = L" and "length pm = L"
    and "length sin_t = S" and "length sin_2t = S" and "0 < S" and "is_bit val"
  shows "native_sample (int S) sin_t sin_2t idx val (int n) (ph, am, fm, pm) =
     Inr (if idx > 0 then ph \<noteq> (val = CHR ''0'') else ph,
          am[n := (if val = CHR ''1'' then 1 else 1 / 2) * sin_t ! (n mod S)],
          fm[n := (if val = CHR ''1'' then sin_2t else sin_t) ! (n mod S)],
          pm[n := (if (if idx > 0 then ph \<noteq> (val = CHR ''0'') else ph) then - 1 else 1)
                  * sin_t ! (n mod S)])"
proof -
  have m: "int n mod int S = int (n mod S)" by (simp add: zmod_int)
  have k: "n mod S < S" using assms(7) by simp
  have v: "val = CHR ''0'' \<or> val = CHR ''1''" using assms(8) by (simp add: is_bit_def)
  have g: "getitem sin_t (int (n mod S)) = Inr (sin_t ! (n mod S))"
    "getitem sin_2t (int (n mod S)) = Inr (sin_2t ! (n mod S))"
    using k assms(5,6) by (simp_all add: getitem_nat)
  have s: "\<And>x. setitem am (int n) x = Inr (am[n := x])"
    "\<And>x. setitem fm (int n) x = Inr (fm[n := x])"
    "\<And>x. setitem pm (int n) x = Inr (pm[n := x])"
    using assms(1-4) by (simp_all add: setitem_nat)
  show ?thesis
    unfolding native_sample_def m using v
    by (auto simp: int_py_bit [OF assms(8)] g s Let_def)
qed

lemma native_cycle_bit:
  fixes code :: string and S :: nat
  defines "L \<equiv> length code * S"
  assumes idx: "idx < length code" and bit: "is_bit (code ! idx)" and S: "0 < S"
    and lens: "length sin_t = S" "length sin_2t = S"
    and len: "length am = L" "length fm = L" "length pm = L"
    and ph: "ph = (case idx * S of 0 \<Rightarrow> False | Suc m \<Rightarrow> native_phase code S m)"
    and old: "\<And>j. j < idx * S \<Longrightarrow>
           am ! j = (if code ! (j div S) = CHR ''1'' then 1 else 1 / 2) * sin_t ! (j mod S)
         \<and> fm ! j = (if code ! (j div S) = CHR ''1'' then sin_2t else sin_t) ! (j mod S)
         \<and> pm ! j = (if native_phase code S j then - 1 else 1) * sin_t ! (j mod S)"
  shows "\<exists>ph' am' fm' pm'.
           native_cycle (int S) sin_t sin_2t (idx, code ! idx) (ph, am, fm, pm)
             = Inr (ph', am', fm', pm')
         \<and> length am' = L \<and> length fm' = L \<and> length pm' = L
         \<and> ph' = (case Suc idx * S of 0 \<Rightarrow> False | Suc m \<Rightarrow> native_phase code S m)
         \<and> (\<forall>j<Suc idx * S.
                am' ! j = (if code ! (j div S) = CHR ''1'' then 1 else 1 / 2) * sin_t ! (j mod S)
              \<and> fm' ! j = (if code ! (j div S) = CHR ''1'' then sin_2t else sin_t) ! (j mod S)
              \<and> pm' ! j = (if native_phase code S j then - 1 else 1) * sin_t ! (j mod S))"
proof -
  define P :: "nat \<Rightarrow> cycle_state \<Rightarrow> bool" where
    "P q s = (case s of (ph, am, fm, pm) \<Rightarrow>
        length am = L \<and> length fm = L \<and> length pm = L
      \<and> ph = (case idx * S + q of 0 \<Rightarrow> False | Suc m \<Rightarrow> native_phase code S m)
      \<and> (\<forall>j<idx * S + q.
             am ! j = (if code ! (j div S) = CHR ''1'' then 1 else 1 / 2) * sin_t ! (j mod S)
           \<and> fm ! j = (if code ! (j div S) = CHR ''1'' then sin_2t else sin_t) ! (j mod S)
           \<and> pm ! j = (if native_phase code S j then - 1 else 1) * sin_t ! (j mod S)))"
    for q s
  define rng where "rng = py_range (int idx * int S) ((int idx + 1) * int S)"
  have blk: "Suc idx * S \<le> L"
    unfolding L_def using idx by (simp add: Suc_leI mult_le_mono1 del: mult_Suc)
  have init: "P 0 (ph, am, fm, pm)" using len old ph by (simp add: P_def)
  have step: "\<exists>s'. native_sample (int S) sin_t sin_2t idx (code ! idx) i s = Inr s'
                  \<and> P (Suc (length pre)) s'"
    if split: "rng = pre @ i # post" and inv: "P (length pre) s"
    for pre i post s
  proof -
    define q where "q = length pre"
    define n where "n = idx * S + q"
    obtain ph1 am1 fm1 pm1 where s: "s = (ph1, am1, fm1, pm1)" by (cases s)
    from py_range_split [OF split [unfolded rng_def]]
    have "i = int idx * int S + int q" "i < (int idx + 1) * int S" by (simp_all add: q_def)
    then have i: "i = int n" and "int n < int (Suc idx * S)"
      by (simp_all add: n_def algebra_simps)
    then have n: "n < Suc idx * S" by (simp only: of_nat_less_iff)
    then have nL: "n < L" using blk by simp
    have lo: "idx * S \<le> n" by (simp add: n_def)
    from block_div_mod [OF lo n] have dm: "n div S = idx" by simp
    from inv have len1: "length am1 = L" "length fm1 = L" "length pm1 = L"
      and ph1: "ph1 = (case n of 0 \<Rightarrow> False | Suc m \<Rightarrow> native_phase code S m)"
      and old1: "\<And>j. j < n \<Longrightarrow>
           am1 ! j = (if code ! (j div S) = CHR ''1'' then 1 else 1 / 2) * sin_t ! (j mod S)
         \<and> fm1 ! j = (if code ! (j div S) = CHR ''1'' then sin_2t else sin_t) ! (j mod S)
         \<and> pm1 ! j = (if native_phase code S j then - 1 else 1) * sin_t ! (j mod S)"
      by (simp_all add: P_def s q_def n_def)
    define ph' where "ph' = (if idx > 0 then ph1 \<noteq> (code ! idx = CHR ''0'') else ph1)"
    have ph': "ph' = native_phase code S n"
    proof (cases n)
      case 0
      then show ?thesis using dm ph1 by (simp add: ph'_def)
    next
      case (Suc m)
      then show ?thesis using dm ph1 by (simp add: ph'_def)
    qed
    define am' where "am' = am1[n := (if code ! idx = CHR ''1'' then 1 else 1 / 2) * sin_t ! (n mod S)]"
    define fm' where "fm' = fm1[n := (if code ! idx = CHR ''1'' then sin_2t else sin_t) ! (n mod S)]"
    define pm' where "pm' = pm1[n := (if ph' then - 1 else 1) * sin_t ! (n mod S)]"
    have run: "native_sample (int S) sin_t sin_2t idx (code ! idx) i s = Inr (ph', am', fm', pm')"
      unfolding i s ph'_def am'_def fm'_def pm'_def
      by (rule native_sample_bit [OF nL len1 lens S bit])
    have vals: "am' ! j = (if code ! (j div S) = CHR ''1'' then 1 else 1 / 2) * sin_t ! (j mod S)
         \<and> fm' ! j = (if code ! (j div S) = CHR ''1'' then sin_2t else sin_t) ! (j mod S)
         \<and> pm' ! j = (if native_phase code S j then - 1 else 1) * sin_t ! (j mod S)"
      if "j < Suc n" for j
    proof (cases "j = n")
      case True
      then show ?thesis
        unfolding am'_def fm'_def pm'_def using nL len1 dm ph' by simp
    next
      case False
      then have "j < n" using that by simp
      from old1 [OF this] show ?thesis
        unfolding am'_def fm'_def pm'_def using False by simp
    qed
    have "P (Suc q) (ph', am', fm', pm')"
      unfolding P_def using len1 ph' vals
      by (simp add: n_def [symmetric] am'_def fm'_def pm'_def)
    with run show ?thesis unfolding q_def by blast
  qed
  have "\<exists>s'. for_loop rng (native_sample (int S) sin_t sin_2t idx (code ! idx)) (ph, am, fm, pm)
            = Inr s' \<and> P (length rng) s'"
    by (rule for_loop_invariant [where P = P], rule init, rule step)
  moreover have "length rng = S"
    by (simp add: rng_def length_py_range algebra_simps)
  ultimately obtain s' where
    run: "for_loop rng (native_sample (int S) sin_t sin_2t idx (code ! idx)) (ph, am, fm, pm)
            = Inr s'" and fin: "P S s'"
    by auto
  obtain ph' am' fm' pm' where s': "s' = (ph', am', fm', pm')" by (cases s')
  have "native_cycle (int S) sin_t sin_2t (idx, code ! idx) (ph, am, fm, pm) = Inr s'"
    using run by (simp add: native_cycle_def rng_def Let_def)
  with fin show ?thesis unfolding s' P_def by (simp add: add.commute)
qed

section \<open>The result of the scalar backend\<close>

lemma native_loop:
  fixes code :: string and S :: nat
  defines "L \<equiv> length code * S"
  assumes bits: "list_all is_bit code"
    and len0: "length am0 = L" "length fm0 = L" "length pm0 = L"
    and lens: "length sin_t = S" "length sin_2t = S" and S: "0 < S"
  shows "\<exists>ph am fm pm.
           for_loop (enumerate 0 code) (native_cycle (int S) sin_t sin_2t) (False, am0, fm0, pm0)
             = Inr (ph, am, fm, pm)
         \<and> length am = L \<and> length fm = L \<and> length pm = L
         \<and> (\<forall>j<L. am ! j = (if code ! (j div S) = CHR ''1'' then 1 else 1 / 2) * sin_t ! (j mod S)
                  \<and> fm ! j = (if code ! (j div S) = CHR ''1'' then sin_2t else sin_t) ! (j mod S)
                  \<and> pm ! j = (if native_phase code S j then - 1 else 1) * sin_t ! (j mod S))"
proof -
  define P :: "nat \<Rightarrow> cycle_state \<Rightarrow> bool" where
    "P p s = (case s of (ph, am, fm, pm) \<Rightarrow>
        length am = L \<and> length fm = L \<and> length pm = L
      \<and> ph = (case p * S of 0 \<Rightarrow> False | Suc m \<Rightarrow> native_phase code S m)
      \<and> (\<forall>j<p * S. am ! j = (if code ! (j div S) = CHR ''1'' then 1 else 1 / 2) * sin_t ! (j mod S)
                  \<and> fm ! j = (if code ! (j div S) = CHR ''1'' then sin_2t else sin_t) ! (j mod S)
                  \<and> pm ! j = (if native_phase code S j then - 1 else 1) * sin_t ! (j mod S)))"
    for p s
  have init: "P 0 (False, am0, fm0, pm0)"
    using len0 by (simp add: P_def)
  have step: "\<exists>s'. native_cycle (int S) sin_t sin_2t x s = Inr s' \<and> P (Suc (length pre)) s'"
    if split: "enumerate 0 code = pre @ x # post" and inv: "P (length pre) s"
    for pre x post s
  proof -
    obtain idx val where x: "x = (idx, val)" by (cases x)
    obtain ph am fm pm where s: "s = (ph, am, fm, pm)" by (cases s)
    from enumerate_split [OF split [unfolded x]]
    have idx: "idx = length pre" "idx < length code" "val = code ! idx" by simp_all
    have bit: "is_bit (code ! idx)" using bits idx by (simp add: list_all_length)
    from inv have len: "length am = length code * S" "length fm = length code * S"
        "length pm = length code * S"
      and ph: "ph = (case idx * S of 0 \<Rightarrow> False | Suc m \<Rightarrow> native_phase code S m)"
      and old: "\<And>j. j < idx * S \<Longrightarrow>
           am ! j = (if code ! (j div S) = CHR ''1'' then 1 else 1 / 2) * sin_t ! (j mod S)
         \<and> fm ! j = (if code ! (j div S) = CHR ''1'' then sin_2t else sin_t) ! (j mod S)
         \<and> pm ! j = (if native_phase code S j then - 1 else 1) * sin_t ! (j mod S)"
      unfolding P_def s idx(1) L_def by simp_all
    from native_cycle_bit [OF idx(2) bit S lens len ph old]
    show ?thesis unfolding x s idx(3) P_def L_def idx(1) [symmetric] by auto
  qed
  have "\<exists>s'. for_loop (enumerate 0 code) (native_cycle (int S) sin_t sin_2t)
      (False, am0, fm0, pm0) = Inr s' \<and> P (length (enumerate 0 code)) s'"
    by (rule for_loop_invariant [where P = P], rule init, rule step)
  then obtain s' where res: "for_loop (enumerate 0 code) (native_cycle (int S) sin_t sin_2t)
      (False, am0, fm0, pm0) = Inr s'" and fin: "P (length (enumerate 0 code)) s'"
    by blast
  obtain ph am fm pm where s': "s' = (ph, am, fm, pm)" by (cases s')
  from fin show ?thesis
    unfolding res s' P_def L_def by simp
qed

lemma waveforms_native_result:
  fixes code :: string and steps :: int
  defines "S \<equiv> nat steps"
  defines "L \<equiv> length code * S"
  assumes steps: "1 \<le> steps" and bits: "list_all is_bit code"
  shows "\<exists>t am fm pm.
           waveforms_native code steps = Inr (t, am, fm, pm)
         \<and> length t = L \<and> length am = L \<and> length fm = L \<and> length pm = L
         \<and> (\<forall>j<L. t ! j = real j / real_of_int steps
                \<and> am ! j = (if code ! (j div S) = CHR ''1'' then 1 else 1 / 2)
                            * sin (2 * pi * real (j mod S) / real_of_int steps)
                \<and> fm ! j = (if code ! (j div S) = CHR ''1''
                             then sin (2 * pi * 2 * real (j mod S) / real_of_int steps)
                             else sin (2 * pi * real (j mod S) / real_of_int steps))
                \<and> pm ! j = (if native_phase code S j then - 1 else 1)
                            * sin (2 * pi * real (j mod S) / real_of_int steps))"
proof -
  have S: "0 < S" "steps = int S" using steps by (simp_all add: S_def)
  have L: "nat (steps * int (length code)) = L"
    unfolding S(2) L_def by (simp add: nat_mult_distrib mult.commute)
  from native_t_loop [of L "1 / real S"]
  obtain t where t_run: "for_loop (py_range 1 (int L)) (native_t_step (1 / real S))
        (replicate L 0) = Inr t"
    and lt: "length t = L" and t: "\<And>j. j < L \<Longrightarrow> t ! j = real j / real S"
    by auto
  define ts where "ts = py_slice t 0 (int S)"
  have ts: "ts = take S t" unfolding ts_def by (simp add: py_slice_prefix)
  have "length ts \<le> S" by (simp add: ts)
  from native_sin_loop [OF this]
  obtain sin_t sin_2t where
    sin_run: "for_loop (enumerate 0 ts) native_sin_step (replicate S 0, replicate S 0)
        = Inr (sin_t, sin_2t)"
    and lens: "length sin_t = S" "length sin_2t = S"
    and sins: "\<And>k. k < length ts \<Longrightarrow> sin_t ! k = sin (ts ! k * 2 * pi)
                                    \<and> sin_2t ! k = sin (2 * ts ! k * 2 * pi)"
    by blast
  from native_loop [OF bits, of "replicate L 0" S "replicate L 0" "replicate L 0" sin_t sin_2t]
  obtain ph am fm pm where
    run: "for_loop (enumerate 0 code) (native_cycle (int S) sin_t sin_2t)
           (False, replicate L 0, replicate L 0, replicate L 0) = Inr (ph, am, fm, pm)"
    and len: "length am = L" "length fm = L" "length pm = L"
    and vals: "\<And>j. j < L \<Longrightarrow>
         am ! j = (if code ! (j div S) = CHR ''1'' then 1 else 1 / 2) * sin_t ! (j mod S)
       \<and> fm ! j = (if code ! (j div S) = CHR ''1'' then sin_2t else sin_t) ! (j mod S)
       \<and> pm ! j = (if native_phase code S j then - 1 else 1) * sin_t ! (j mod S)"
    unfolding L_def [symmetric] using lens S(1) by auto
  have res: "waveforms_native code steps = Inr (t, am, fm, pm)"
    unfolding waveforms_native_def L Let_def
    using S t_run sin_run run lt by (simp add: ts_def [symmetric])
  have "t ! j = real j / real_of_int steps
      \<and> am ! j = (if code ! (j div S) = CHR ''1'' then 1 else 1 / 2)
                  * sin (2 * pi * real (j mod S) / real_of_int steps)
      \<and> fm ! j = (if code ! (j div S) = CHR ''1''
                   then sin (2 * pi * 2 * real (j mod S) / real_of_int steps)
                   else sin (2 * pi * real (j mod S) / real_of_int steps))
      \<and> pm ! j = (if native_phase code S j then - 1 else 1)
                  * sin (2 * pi * real (j mod S) / real_of_int steps)"
    if j: "j < L" for j
  proof -
    have "code \<noteq> []" using j by (auto simp: L_def)
    then have "0 < length code" by simp
    then have SL: "S \<le> L" by (simp add: L_def Suc_leI)
    have k: "j mod S < S" using S(1) by simp
    then have kts: "j mod S < length ts" using SL lt by (simp add: ts)
    have "ts ! (j mod S) = real (j mod S) / real S"
      using k SL t [of "j mod S"] by (simp add: ts)
    then have "sin_t ! (j mod S) = sin (2 * pi * real (j mod S) / real S)"
      "sin_2t ! (j mod S) = sin (2 * pi * 2 * real (j mod S) / real S)"
      using sins [OF kts] by (simp_all add: algebra_simps)
    then show ?thesis using vals [OF j] t [OF j] by (simp add: S(2))
  qed
  with res lt len show ?thesis by blast
qed

section \<open>Claims about the engine\<close>

lemma set_bits_is_bit: "set code \<subseteq> {CHR ''0'', CHR ''1''} \<Longrightarrow> list_all is_bit code"
  by (auto simp: list_all_iff is_bit_def)






section \<open>The phase modulation of the two backends\<close>

text \<open>
  The vectorized backend updates \<open>phase_shift\<close> once per cycle: cycle 0 is not
  flipped, and the sign of every later cycle is the sign of the cycle before, flipped
  exactly when the bit of the cycle is 0.
\<close>

lemma waveforms_numpy_pm:
  fixes code :: string and steps :: int
  assumes "set code \<subseteq> {CHR ''0'', CHR ''1''}" and "1 \<le> steps"
  shows "\<exists>t am fm pm.
           waveforms_numpy uninit code steps = Inr (t, am, fm, pm)
         \<and> (\<forall>j<length code * nat steps.
                pm ! j = (if spec_phase code (j div nat steps) then - 1 else 1)
                         * sin (2 * pi * real (j mod nat steps) / real_of_int steps))"
  using waveforms_numpy_result [OF assms(2) set_bits_is_bit [OF assms(1)], of uninit] by blast

text \<open>
  The scalar backend updates \<open>phase_shift\<close> once per sample: within a cycle
  \<open>idx > 0\<close> of a bit 0 the sign alternates from one sample to the next.
\<close>

lemma waveforms_native_pm:
  fixes code :: string and steps :: int
  assumes "set code \<subseteq> {CHR ''0'', CHR ''1''}" and "1 \<le> steps"
  shows "\<exists>t am fm pm.
           waveforms_native code steps = Inr (t, am, fm, pm)
         \<and> (\<forall>j<length code * nat steps.
                pm ! j = (if native_phase code (nat steps) j then - 1 else 1)
                         * sin (2 * pi * real (j mod nat steps) / real_of_int steps))"
  using waveforms_native_result [OF assms(2) set_bits_is_bit [OF assms(1)]] by blast

lemma native_phase_10_8_9: "native_phase ''10'' 8 9 = False" by code_simp
lemma native_phase_10_8_10: "native_phase ''10'' 8 10 = True" by code_simp
lemma native_phase_10_4_5: "native_phase ''10'' 4 5 = False" by code_simp
lemma spec_phase_10_1: "spec_phase ''10'' 1 = True" by code_simp

text \<open>
  Claim C2. With the scalar backend, the code \<open>10\<close> and 8 steps, the sign of \<open>pm\<close>
  is not uniform within cycle 1: sample 9 is the base curve's sample 1 unflipped, sample 10
  is the base curve's sample 2 flipped, and neither base sample is zero.
\<close>

theorem native_phase_not_uniform:
  "\<exists>t am fm pm. waveforms_native ''10'' 8 = Inr (t, am, fm, pm)
     \<and> pm ! 9 = sin (2 * pi * 1 / 8) \<and> pm ! 10 = - sin (2 * pi * 2 / 8)
     \<and> 0 < sin (2 * pi * 1 / 8) \<and> 0 < sin (2 * pi * 2 / 8)"
proof -
  have bits: "list_all is_bit ''10''" by (simp add: is_bit_def)
  from waveforms_native_result [of 8 "''10''", OF _ bits]
  obtain t am fm pm where run: "waveforms_native ''10'' 8 = Inr (t, am, fm, pm)"
    and pm: "\<And>j. j < 16 \<Longrightarrow> pm ! j = (if native_phase ''10'' 8 j then - 1 else 1)
                 * sin (2 * pi * real (j mod 8) / 8)"
    by auto
  have "pm ! 9 = sin (2 * pi * 1 / 8)" using pm [of 9] by (simp add: native_phase_10_8_9)
  moreover have "pm ! 10 = - sin (2 * pi * 2 / 8)" using pm [of 10] by (simp add: native_phase_10_8_10)
  moreover have "0 < sin (2 * pi * 1 / 8)" by (rule sin_gt_zero) simp_all
  moreover have "0 < sin (2 * pi * 2 / 8)" by simp
  ultimately show ?thesis using run by blast
qed

text \<open>
  Claim C1. With the code \<open>10\<close> and 4 steps the two backends disagree on \<open>pm\<close>:
  sample 5 is \<open>-1\<close> in the vectorized backend and \<open>1\<close> in the scalar one.
\<close>

theorem backends_differ:
  "\<exists>t am fm pm t' am' fm' pm'.
       waveforms_numpy uninit ''10'' 4 = Inr (t, am, fm, pm)
     \<and> waveforms_native ''10'' 4 = Inr (t', am', fm', pm')
     \<and> pm ! 5 = - 1 \<and> pm' ! 5 = 1"
proof -
  have bits: "list_all is_bit ''10''" by (simp add: is_bit_def)
  have q: "sin (2 * pi * real (5 mod 4) / 4) = 1" by simp
  from waveforms_native_result [of 4 "''10''", OF _ bits]
  obtain t' am' fm' pm' where run': "waveforms_native ''10'' 4 = Inr (t', am', fm', pm')"
    and pm': "\<And>j. j < 8 \<Longrightarrow> pm' ! j = (if native_phase ''10'' 4 j then - 1 else 1)
                 * sin (2 * pi * real (j mod 4) / 4)"
    by auto
  from waveforms_numpy_result [of 4 "''10''" uninit, OF _ bits]
  obtain t am fm pm where run: "waveforms_numpy uninit ''10'' 4 = Inr (t, am, fm, pm)"
    and pm: "\<And>j. j < 8 \<Longrightarrow> pm ! j = (if spec_phase ''10'' (j div 4) then - 1 else 1)
                 * sin (2 * pi * real (j mod 4) / 4)"
    by auto
  have "pm ! 5 = - 1" using pm [of 5] q by (simp add: spec_phase_10_1)
  moreover have "pm' ! 5 = 1" using pm' [of 5] q by (simp add: native_phase_10_4_5)
  ultimately show ?thesis using run run' by blast
qed

section \<open>Arguments outside the specification's range\<close>

lemma waveforms_numpy_empty:
  "steps \<noteq> 0 \<Longrightarrow> waveforms_numpy uninit [] steps = Inr ([], [], [], [])"
  by (simp add: waveforms_numpy_def arange_def empty_like_def py_slice_def)

lemma waveforms_native_empty:
  "steps \<noteq> 0 \<Longrightarrow> waveforms_native [] steps = Inr ([], [], [], [])"
  by (simp add: waveforms_native_def py_range_def py_slice_def)

lemma slice_bound_empty: "slice_bound 0 i = 0"
  by (simp add: slice_bound_def)

lemma numpy_cycle_no_samples:
  assumes "is_bit val"
  shows "\<exists>ph'. numpy_cycle steps [] [] (idx, val) (ph, [], [], []) = Inr (ph', [], [], [])"
  by (simp add: numpy_cycle_def int_py_bit [OF assms] py_slice_def slice_assign_def
      slice_bound_empty Let_def)

lemma numpy_loop_no_samples:
  assumes "list_all is_bit code"
  shows "\<exists>ph. for_loop (enumerate n code) (numpy_cycle steps [] []) (ph0, [], [], [])
           = Inr (ph, [], [], [])"
  using assms
proof (induction code arbitrary: n ph0)
  case Nil
  show ?case by simp
next
  case (Cons val code)
  from Cons.prems have bit: "is_bit val" and rest: "list_all is_bit code" by simp_all
  from numpy_cycle_no_samples [OF bit, of steps n ph0]
  obtain ph1 where "numpy_cycle steps [] [] (n, val) (ph0, [], [], []) = Inr (ph1, [], [], [])"
    by blast
  then show ?case using Cons.IH [OF rest, of "Suc n" ph1] by simp
qed

lemma waveforms_numpy_negative:
  assumes "steps < 0" and "list_all is_bit code"
  shows "waveforms_numpy uninit code steps = Inr ([], [], [], [])"
proof -
  have "real (length code) / (1 / real_of_int steps) \<le> 0"
    using assms(1) by (simp add: mult_nonneg_nonpos)
  then have "\<lceil>real (length code) / (1 / real_of_int steps)\<rceil> \<le> 0"
    by (simp only: ceiling_le_zero)
  then have t: "arange (real (length code)) (1 / real_of_int steps) = []"
    by (simp add: arange_def)
  from numpy_loop_no_samples [OF assms(2), of 0 steps False]
  obtain ph where "for_loop (enumerate 0 code) (numpy_cycle steps [] []) (False, [], [], [])
      = Inr (ph, [], [], [])" by blast
  then show ?thesis
    using assms(1) by (simp add: waveforms_numpy_def t empty_like_def py_slice_def)
qed

lemma native_loop_no_samples:
  assumes "steps < 0"
  shows "for_loop (enumerate n code) (native_cycle steps sin_t sin_2t) s = Inr s"
proof (induction code arbitrary: n)
  case Nil
  show ?case by simp
next
  case (Cons val code)
  have "(int n + 1) * steps - 1 < int n * steps" using assms by (simp add: algebra_simps)
  then have "py_range (int n * steps) ((int n + 1) * steps) = []"
    by (simp only: py_range_def upto_empty)
  then have "native_cycle steps sin_t sin_2t (n, val) s = Inr s"
    by (simp add: native_cycle_def Let_def)
  then show ?case using Cons.IH [of "Suc n"] by simp
qed

lemma waveforms_native_negative:
  assumes "steps < 0"
  shows "waveforms_native code steps = Inr ([], [], [], [])"
proof -
  have "steps * int (length code) \<le> 0" using assms by (simp add: mult_nonpos_nonneg)
  then have t0: "replicate (nat (steps * int (length code))) (0::real) = []" by simp
  show ?thesis
    unfolding waveforms_native_def t0 Let_def
    using assms by (simp add: py_range_def py_slice_def native_loop_no_samples)
qed

lemma waveforms_zero_steps: "waveforms slow uninit code 0 = Inl ZeroDivisionError"
  by (simp add: waveforms_def waveforms_numpy_def waveforms_native_def)

text \<open>
  Claim C10. For the empty code and every \<open>steps \<ge> 1\<close>, \<open>waveforms\<close> raises
  nothing with either backend and returns four empty arrays: nothing validates the
  arguments.
\<close>

theorem waveforms_empty_code:
  "1 \<le> steps \<Longrightarrow> waveforms slow uninit [] steps = Inr ([], [], [], [])"
  by (simp add: waveforms_def waveforms_numpy_empty waveforms_native_empty)

theorem waveforms_empty_code_witness:
  "waveforms True (\<lambda>i. 0) [] 200 = Inr ([], [], [], [])
   \<and> waveforms False (\<lambda>i. 0) [] 200 = Inr ([], [], [], [])"
  using waveforms_empty_code [of 200 True "\<lambda>i. 0"] waveforms_empty_code [of 200 False "\<lambda>i. 0"]
  by simp

text \<open>
  Claim C3, as stated, fails: with the empty code and one step, and with the code \<open>1\<close>
  and \<open>-1\<close> steps, both backends return four empty arrays instead of raising.
\<close>

theorem waveforms_no_validation:
  "waveforms True (\<lambda>i. 0) [] 1 = Inr ([], [], [], [])
   \<and> waveforms False (\<lambda>i. 0) [] 1 = Inr ([], [], [], [])
   \<and> waveforms True (\<lambda>i. 0) ''1'' (- 1) = Inr ([], [], [], [])
   \<and> waveforms False (\<lambda>i. 0) ''1'' (- 1) = Inr ([], [], [], [])"
  by (simp add: waveforms_def waveforms_numpy_empty waveforms_native_empty
      waveforms_numpy_negative waveforms_native_negative is_bit_def)

text \<open>
  Claim C3, amended. \<open>waveforms\<close> raises \<open>ZeroDivisionError\<close> for \<open>steps = 0\<close>,
  whatever the code. For the empty code and any other \<open>steps\<close>, and for a code of bits
  and negative \<open>steps\<close>, it raises nothing and returns four empty arrays.
\<close>

theorem waveforms_fails_only_at_zero:
  "waveforms slow uninit code 0 = Inl ZeroDivisionError
   \<and> (steps \<noteq> 0 \<longrightarrow> waveforms slow uninit [] steps = Inr ([], [], [], []))
   \<and> (steps < 0 \<and> set code \<subseteq> {CHR ''0'', CHR ''1''}
        \<longrightarrow> waveforms slow uninit code steps = Inr ([], [], [], []))"
proof -
  have "steps \<noteq> 0 \<longrightarrow> waveforms slow uninit [] steps = Inr ([], [], [], [])"
    by (simp add: waveforms_def waveforms_numpy_empty waveforms_native_empty)
  moreover have "steps < 0 \<and> set code \<subseteq> {CHR ''0'', CHR ''1''}
      \<longrightarrow> waveforms slow uninit code steps = Inr ([], [], [], [])"
    using set_bits_is_bit [of code]
    by (simp add: waveforms_def waveforms_numpy_negative waveforms_native_negative)
  ultimately show ?thesis using waveforms_zero_steps [of slow uninit code] by blast
qed

theorem waveforms_fails_only_at_zero_witness:
  "waveforms False (\<lambda>i. 0) ''01'' 0 = Inl ZeroDivisionError
   \<and> waveforms False (\<lambda>i. 0) [] 3 = Inr ([], [], [], [])
   \<and> waveforms False (\<lambda>i. 0) ''01'' (- 2) = Inr ([], [], [], [])"
  using waveforms_fails_only_at_zero [of False "\<lambda>i. 0" "''01''" 3]
    waveforms_fails_only_at_zero [of False "\<lambda>i. 0" "''01''" "- 2"]
  by simp

section \<open>The time axis in double precision\<close>

lemma bit_length_bounds:
  "0 < n \<Longrightarrow> 2 ^ (bit_length n - 1) \<le> n \<and> n < 2 ^ bit_length n"
proof (induction n rule: bit_length.induct)
  case (1 n)
  show ?case
  proof (cases "n div 2 = 0")
    case True
    with "1.prems" have "n = 1" by (auto simp: div_eq_0_iff)
    moreover have "bit_length (Suc 0) = Suc 0"
      by (simp add: bit_length.simps [of "Suc 0"] bit_length.simps [of 0])
    ultimately show ?thesis by simp
  next
    case False
    then have pos: "0 < n div 2" by simp
    from "1.IH" [OF _ pos] "1.prems"
    have ih: "2 ^ (bit_length (n div 2) - 1) \<le> n div 2" "n div 2 < 2 ^ bit_length (n div 2)"
      by simp_all
    have bl: "bit_length n = Suc (bit_length (n div 2))"
      using "1.prems" by (subst bit_length.simps) simp
    have b1: "0 < bit_length (n div 2)"
      using pos by (subst bit_length.simps) simp
    then have "(2::nat) ^ bit_length (n div 2) = 2 * 2 ^ (bit_length (n div 2) - 1)"
      by (cases "bit_length (n div 2)") simp_all
    then have lo: "2 ^ bit_length (n div 2) \<le> n" using ih(1) by simp
    have hi: "n < 2 * 2 ^ bit_length (n div 2)" using ih(2) by simp
    show ?thesis using lo hi by (simp add: bl)
  qed
qed

lemma binary_exponent_bounds:
  assumes "0 < x"
  shows "pow2 (binary_exponent x) \<le> x \<and> x < pow2 (binary_exponent x + 1)"
proof (cases "1 \<le> x")
  case True
  define n where "n = nat \<lfloor>x\<rfloor>"
  have fl: "1 \<le> \<lfloor>x\<rfloor>" using True by simp
  then have n: "0 < n" "of_nat n \<le> x" "x < of_nat n + 1"
    by (simp_all add: n_def) (linarith+)
  from bit_length_bounds [OF n(1)]
  have b: "2 ^ (bit_length n - 1) \<le> n" "n < 2 ^ bit_length n" by simp_all
  have bpos: "0 < bit_length n" using n(1) by (subst bit_length.simps) simp
  have e: "binary_exponent x = int (bit_length n) - 1"
    using True by (simp add: binary_exponent_def n_def)
  have "nat (int (bit_length n) - 1) = bit_length n - 1" by simp
  then have p1: "pow2 (binary_exponent x) = 2 ^ (bit_length n - 1)"
    using bpos by (simp add: e pow2_def)
  have p2: "pow2 (binary_exponent x + 1) = 2 ^ bit_length n"
    by (simp add: e pow2_def)
  have "(2::rat) ^ (bit_length n - 1) = of_nat (2 ^ (bit_length n - 1))" by simp
  also have "\<dots> \<le> of_nat n" using b(1) by (simp only: of_nat_le_iff)
  finally have "(2::rat) ^ (bit_length n - 1) \<le> of_nat n" .
  then have lo: "(2::rat) ^ (bit_length n - 1) \<le> x" using n(2) by (rule order_trans)
  have "n + 1 \<le> 2 ^ bit_length n" using b(2) by simp
  then have "(of_nat (n + 1) :: rat) \<le> of_nat (2 ^ bit_length n)" by (simp only: of_nat_le_iff)
  then have hi: "x < 2 ^ bit_length n" using n(3) by simp
  show ?thesis using lo hi by (simp add: p1 p2)
next
  case False
  then have x1: "x < 1" by simp
  define y where "y = 1 / x"
  have y1: "1 < y" using assms x1 by (simp add: y_def)
  define m where "m = nat (\<lceil>y\<rceil> - 1)"
  have c: "2 \<le> \<lceil>y\<rceil>" using y1 by linarith
  then have m: "0 < m" "of_nat m < y" "y \<le> of_nat m + 1"
    by (simp_all add: m_def) (linarith+)
  from bit_length_bounds [OF m(1)]
  have b: "2 ^ (bit_length m - 1) \<le> m" "m < 2 ^ bit_length m" by simp_all
  have bpos: "0 < bit_length m" using m(1) by (subst bit_length.simps) simp
  have e: "binary_exponent x = - int (bit_length m)"
    using False by (simp add: binary_exponent_def m_def y_def)
  have p1: "pow2 (binary_exponent x) = 1 / 2 ^ bit_length m"
    using bpos by (simp add: e pow2_def)
  have "nat (int (bit_length m) - 1) = bit_length m - 1" by simp
  then have p2: "pow2 (binary_exponent x + 1) = 1 / 2 ^ (bit_length m - 1)"
    using bpos by (cases "bit_length m = 1") (simp_all add: e pow2_def)
  have "m + 1 \<le> 2 ^ bit_length m" using b(2) by simp
  then have "(of_nat (m + 1) :: rat) \<le> of_nat (2 ^ bit_length m)" by (simp only: of_nat_le_iff)
  then have "y \<le> 2 ^ bit_length m" using m(3) by simp
  then have lo: "1 / 2 ^ bit_length m \<le> x"
    using assms by (simp add: y_def field_simps)
  have "(2::rat) ^ (bit_length m - 1) = of_nat (2 ^ (bit_length m - 1))" by simp
  also have "\<dots> \<le> of_nat m" using b(1) by (simp only: of_nat_le_iff)
  finally have "(2::rat) ^ (bit_length m - 1) \<le> of_nat m" .
  then have "(2::rat) ^ (bit_length m - 1) < y" using m(2) by (rule le_less_trans)
  then have hi: "x < 1 / 2 ^ (bit_length m - 1)"
    using assms by (simp add: y_def field_simps)
  show ?thesis using lo hi by (simp add: p1 p2)
qed

lemma round_half_even_near: "\<bar>of_int (round_half_even x) - x\<bar> \<le> 1 / 2"
proof -
  define f where "f = \<lfloor>x\<rfloor>"
  define r where "r = x - of_int f"
  have r: "0 \<le> r" "r < 1" unfolding r_def f_def by linarith+
  have x: "x = of_int f + r" by (simp add: r_def)
  have "round_half_even x = (if r < 1 / 2 then f else if 1 / 2 < r then f + 1
      else if even f then f else f + 1)"
    by (simp add: round_half_even_def Let_def f_def r_def)
  then show ?thesis using r unfolding x by (auto simp: abs_le_iff)
qed

lemma pow2_pos: "0 < pow2 e"
  by (simp add: pow2_def)

lemma round_double_error:
  assumes "0 < x"
  shows "\<bar>round_double x - x\<bar> \<le> pow2 (binary_exponent x - 52) / 2"
proof -
  define q where "q = pow2 (binary_exponent x - 52)"
  define m where "m = round_half_even (x / q)"
  have q: "0 < q" unfolding q_def by (rule pow2_pos)
  have rd: "round_double x = of_int m * q"
    using assms by (simp add: round_double_def Let_def q_def m_def)
  have "\<bar>of_int m - x / q\<bar> \<le> 1 / 2" unfolding m_def by (rule round_half_even_near)
  then have "\<bar>of_int m - x / q\<bar> * q \<le> 1 / 2 * q"
    using q by (simp only: mult_le_cancel_right_pos)
  moreover have "\<bar>of_int m - x / q\<bar> * q = \<bar>of_int m * q - x\<bar>"
  proof -
    have e: "(of_int m - x / q) * q = of_int m * q - x"
      using q by (simp add: left_diff_distrib)
    have "\<bar>of_int m * q - x\<bar> = \<bar>(of_int m - x / q) * q\<bar>" by (simp only: e)
    also have "\<dots> = \<bar>of_int m - x / q\<bar> * \<bar>q\<bar>" by (rule abs_mult)
    also have "\<dots> = \<bar>of_int m - x / q\<bar> * q" using q by simp
    finally show ?thesis by simp
  qed
  ultimately show ?thesis unfolding rd q_def [symmetric] by simp
qed

text \<open>
  Claim C5. In doubles the vectorized backend does not return \<open>N * steps\<close> samples
  for every input: for the code \<open>1\<close> and 49 steps \<open>1 / (1 / 49)\<close> is a double above
  49, so \<open>numpy.arange\<close> allocates 50 samples, where the scalar backend allocates
  \<open>steps * len(code) = 49\<close>. Nor is \<open>t[j]\<close> the double \<open>j / steps\<close> for every
  \<open>j\<close>: not \<open>t[3]\<close> of the vectorized backend with 10 steps, and not \<open>t[5]\<close> of
  the scalar backend with 3 steps.
\<close>

theorem numpy_arange_length_49:
  "numpy_t_length ''1'' 49 = 50
   \<and> (\<exists>t am fm pm. waveforms_native ''1'' 49 = Inr (t, am, fm, pm) \<and> length t = 49)
   \<and> numpy_t_value 10 3 \<noteq> py_truediv 3 10
   \<and> native_t_value 3 5 \<noteq> py_truediv 5 3"
proof -
  have "numpy_t_length ''1'' 49 = 50" by code_simp
  moreover have "numpy_t_value 10 3 \<noteq> py_truediv 3 10" by code_simp
  moreover have "native_t_value 3 5 \<noteq> py_truediv 5 3" by code_simp
  moreover have "\<exists>t am fm pm. waveforms_native ''1'' 49 = Inr (t, am, fm, pm) \<and> length t = 49"
  proof -
    have bits: "list_all is_bit ''1''" by (simp add: is_bit_def)
    from waveforms_native_result [of 49 "''1''", OF _ bits] show ?thesis by auto
  qed
  ultimately show ?thesis by blast
qed

end
